theory Spec2Isabelle
  imports Complex_Main "HOL-Library.Sublist" "HOL-Library.Word"
begin

section \<open>Data model of the upload component\<close>

text \<open>
  The component \<^verbatim>\<open>DataUploadComponent\<close> of
  \<^verbatim>\<open>src/app/data-upload/data-upload.component.ts\<close> keeps a queue of
  \<^verbatim>\<open>UploadedFile\<close> objects. The objects are shared by reference between the
  queue and the callbacks of the HTTP subscription (the closure variable
  \<^verbatim>\<open>fileItem\<close>), so the model has an explicit store: \<open>heap\<close> holds the
  objects, an object's reference is its position in \<open>heap\<close>, and the queue
  \<open>uploadedFiles\<close> is a list of references. Objects are never freed.

  A browser \<^verbatim>\<open>File\<close> is reduced to the two properties the component reads.
  A name is a list of characters; \<open>toLowerCase\<close> folds the letters A to Z. No
  other character lower-cases to a character of the three accepted suffixes, so
  the folding of the remaining characters does not matter for \<open>isValidFile\<close>.
\<close>

record File =
  name :: string
  size_bytes :: nat

datatype upload_status = Pending | Uploading | Success | Error

record UploadedFile =
  file_obj :: File
  progress :: int
  status :: upload_status
  error :: "string option"

datatype alert_kind = KSuccess | KError | KInfo

datatype js_error = TypeError

text \<open>
  One HTTP POST issued by \<open>uploadFile\<close>: the captured \<^verbatim>\<open>fileItem\<close> and the two
  fields of the form data.
\<close>

record request =
  req_item :: nat
  req_file :: File
  req_type :: string

text \<open>
  The events a subscriber of \<^verbatim>\<open>http.post(..., {observe: 'events'})\<close> receives.
  The byte counts \<^verbatim>\<open>loaded\<close> and \<^verbatim>\<open>total\<close> of an upload progress event are the
  unsigned 64-bit counters of the platform's progress event; \<^verbatim>\<open>total\<close> is
  optional. \<open>OtherEvent\<close> stands for the event types the component ignores
  (sent, response header, download progress, user). An error carries an object
  whose \<^verbatim>\<open>message\<close> may be absent.
\<close>

datatype http_event = UploadProgress "64 word" "64 word option" | Response | OtherEvent

datatype transport_event = Next http_event | Fail "string option"

text \<open>
  The fields of the component (\<open>uploadedFiles\<close>, \<open>isUploading\<close>,
  \<open>alertMessage\<close>, \<open>alertType\<close>) together with its environment: the object
  store, the requests in flight, the pending \<^verbatim>\<open>setTimeout\<close> callbacks (their due
  times, in milliseconds) and the clock.
\<close>

record world =
  uploadedFiles :: "nat list"
  isUploading :: bool
  alertMessage :: string
  alertType :: string
  heap :: "UploadedFile list"
  requests :: "request list"
  timers :: "nat list"
  now :: nat

definition init :: world where
  "init = \<lparr>uploadedFiles = [], isUploading = False, alertMessage = [], alertType = [],
            heap = [], requests = [], timers = [], now = 0\<rparr>"

section \<open>File validation\<close>

definition upper_lower :: "(char \<times> char) list" where
  "upper_lower = zip ''ABCDEFGHIJKLMNOPQRSTUVWXYZ'' ''abcdefghijklmnopqrstuvwxyz''"

definition lowerChar :: "char \<Rightarrow> char" where
  "lowerChar c = (case map_of upper_lower c of Some l \<Rightarrow> l | None \<Rightarrow> c)"

definition toLowerCase :: "string \<Rightarrow> string" where
  "toLowerCase s = map lowerChar s"

text \<open>
  \<^verbatim>\<open>String.prototype.endsWith\<close>: the search string must fit, and the last
  characters must equal it.
\<close>

definition endsWith :: "string \<Rightarrow> string \<Rightarrow> bool" where
  "endsWith s ext =
     (length ext \<le> length s \<and> drop (length s - length ext) s = ext)"

definition validExtensions :: "string list" where
  "validExtensions = [''.xml'', ''.dat'', ''.nrs'']"

definition maxSize :: nat where
  "maxSize = 200 * 1024 * 1024"

definition isValidFile :: "File \<Rightarrow> bool" where
  "isValidFile f =
     (let hasValidExtension = list_ex (\<lambda>ext. endsWith (toLowerCase (name f)) ext) validExtensions
      in hasValidExtension \<and> size_bytes f \<le> maxSize)"

section \<open>Alerts and timers\<close>

fun kind_string :: "alert_kind \<Rightarrow> string" where
  "kind_string KSuccess = ''success''"
| "kind_string KError = ''error''"
| "kind_string KInfo = ''info''"

text \<open>
  \<open>showAlert\<close> overwrites the alert and schedules a callback 5000 ms later; it
  cancels nothing. The callback is \<open>clearAlert\<close>.
\<close>

definition showAlert :: "string \<Rightarrow> alert_kind \<Rightarrow> world \<Rightarrow> world" where
  "showAlert message type s =
     s\<lparr>alertMessage := message,
       alertType := ''alert-'' @ kind_string type,
       timers := timers s @ [now s + 5000]\<rparr>"

definition clearAlert :: "world \<Rightarrow> world" where
  "clearAlert s = s\<lparr>alertMessage := [], alertType := []\<rparr>"

text \<open>
  The clock moves on by \<open>d\<close> ms: every callback that has become due runs and is
  removed from the pending ones.
\<close>

definition advance :: "nat \<Rightarrow> world \<Rightarrow> world" where
  "advance d s =
     (let t = now s + d;
          due = filter (\<lambda>x. x \<le> t) (timers s);
          s' = fold (\<lambda>_. clearAlert) due s
      in s'\<lparr>timers := filter (\<lambda>x. \<not> x \<le> t) (timers s), now := t\<rparr>)"

section \<open>Queue operations\<close>

definition new_item :: "File \<Rightarrow> UploadedFile" where
  "new_item f = \<lparr>file_obj = f, progress = 0, status = Pending, error = None\<rparr>"

text \<open>\<^verbatim>\<open>this.uploadedFiles.push({...})\<close>: a fresh object, referenced from the end of the queue.\<close>

definition push_item :: "File \<Rightarrow> world \<Rightarrow> world" where
  "push_item f s =
     s\<lparr>uploadedFiles := uploadedFiles s @ [length (heap s)],
       heap := heap s @ [new_item f]\<rparr>"

definition addFiles :: "File list \<Rightarrow> world \<Rightarrow> world" where
  "addFiles files s =
     (let validFiles = filter isValidFile files;
          s1 = (if length validFiles \<noteq> length files
                then showAlert ''Some files were skipped due to invalid format or size'' KError s
                else s)
      in fold push_item validFiles s1)"

text \<open>
  \<open>uploadFile\<close>: reading \<^verbatim>\<open>this.uploadedFiles[index]\<close> outside the array gives
  \<^verbatim>\<open>undefined\<close>, and reading \<^verbatim>\<open>.status\<close> of that throws a \<^verbatim>\<open>TypeError\<close>.
  The subscription is recorded as a request in flight; its callbacks are
  \<open>next_handler\<close> and \<open>error_handler\<close> below, applied to the captured reference.
\<close>

definition uploadFile :: "int \<Rightarrow> world \<Rightarrow> js_error + world" where
  "uploadFile index s =
     (if index < 0 \<or> int (length (uploadedFiles s)) \<le> index then Inl TypeError
      else
        let a = uploadedFiles s ! nat index;
            fileItem = heap s ! a
        in if status fileItem = Uploading then Inr s
           else Inr (s\<lparr>heap := (heap s)[a := fileItem\<lparr>status := Uploading\<rparr>],
                       isUploading := True,
                       requests := requests s @
                         [\<lparr>req_item = a, req_file = file_obj fileItem, req_type = ''neural-data''\<rparr>]\<rparr>))"

text \<open>
  JavaScript numbers are IEEE 754 binary64 values. \<open>fp64\<close> rounds a rational to
  the nearest number with 53 significant bits, a tie to the even significand
  (\<open>rne\<close>); \<open>ilog2 x\<close> is the exponent of \<open>x\<close>, the largest \<open>e\<close> with
  \<open>2 ^ e \<le> x\<close>. The exponent range of binary64 is not limited here: the values
  rounded below lie between \<open>2 ^ -58\<close> and \<open>2 ^ 71\<close>, far inside it.
\<close>

fun bit_length :: "nat \<Rightarrow> nat" where
  "bit_length n = (if n = 0 then 0 else Suc (bit_length (n div 2)))"

declare bit_length.simps [simp del]

definition rne :: "rat \<Rightarrow> int" where
  "rne x =
     (let f = \<lfloor>x\<rfloor>; r = x - of_int f
      in if r < 1 / 2 then f else if 1 / 2 < r then f + 1 else if even f then f else f + 1)"

definition ilog2 :: "rat \<Rightarrow> int" where
  "ilog2 x =
     (if 1 \<le> x then int (bit_length (nat \<lfloor>x\<rfloor>)) - 1
      else - int (bit_length (nat (\<lceil>1 / x\<rceil> - 1))))"

definition fp64_pos :: "rat \<Rightarrow> rat" where
  "fp64_pos x = (let u = 2 powi (ilog2 x - 52) in of_int (rne (x / u)) * u)"

definition fp64 :: "rat \<Rightarrow> rat" where
  "fp64 x = (if x = 0 then 0 else if x < 0 then - fp64_pos (- x) else fp64_pos x)"

text \<open>A byte counter read as a JavaScript number: the nearest binary64 value.\<close>

definition to_double :: "64 word \<Rightarrow> rat" where
  "to_double w = fp64 (of_nat (unat w))"

text \<open>
  \<^verbatim>\<open>Math.round\<close> rounds to the nearest integer, a tie towards plus infinity. On a
  binary64 value the result is exact.
\<close>

definition Math_round :: "rat \<Rightarrow> int" where
  "Math_round x = \<lfloor>x + 1 / 2\<rfloor>"

text \<open>\<^verbatim>\<open>event.total || 1\<close>: an absent or zero total is replaced by 1.\<close>

definition total_or_1 :: "64 word option \<Rightarrow> rat" where
  "total_or_1 tot =
     (case tot of None \<Rightarrow> 1 | Some t \<Rightarrow> if to_double t = 0 then 1 else to_double t)"

text \<open>
  \<^verbatim>\<open>Math.round(100 * event.loaded / (event.total || 1))\<close>: the product and the
  quotient are each rounded to binary64.
\<close>

definition next_progress :: "64 word \<Rightarrow> 64 word option \<Rightarrow> int" where
  "next_progress loaded tot =
     Math_round (fp64 (fp64 (100 * to_double loaded) / total_or_1 tot))"

definition next_handler :: "nat \<Rightarrow> http_event \<Rightarrow> world \<Rightarrow> world" where
  "next_handler a event s =
     (case event of
        UploadProgress loaded tot \<Rightarrow>
          s\<lparr>heap := (heap s)[a := (heap s ! a)\<lparr>progress := next_progress loaded tot\<rparr>]\<rparr>
      | Response \<Rightarrow>
          showAlert (''File '' @ name (file_obj (heap s ! a)) @ '' uploaded successfully!'') KSuccess
            (s\<lparr>heap := (heap s)[a := (heap s ! a)\<lparr>status := Success, progress := 100\<rparr>],
               isUploading := False\<rparr>)
      | OtherEvent \<Rightarrow> s)"

text \<open>\<^verbatim>\<open>error.message || 'Upload failed'\<close>: an absent or empty message is replaced.\<close>

definition message_or :: "string option \<Rightarrow> string \<Rightarrow> string" where
  "message_or m d = (case m of None \<Rightarrow> d | Some t \<Rightarrow> if t = [] then d else t)"

definition error_handler :: "nat \<Rightarrow> string option \<Rightarrow> world \<Rightarrow> world" where
  "error_handler a message s =
     (let e = message_or message ''Upload failed''
      in showAlert (''Failed to upload '' @ name (file_obj (heap s ! a)) @ '': '' @ e) KError
           (s\<lparr>heap := (heap s)[a := (heap s ! a)\<lparr>status := Error, error := Some e\<rparr>],
              isUploading := False\<rparr>))"

text \<open>
  The transport delivers an event to the subscriber of request number \<open>k\<close>,
  some time after \<open>uploadFile\<close> has returned. A response or an error ends the
  request: nothing is delivered to it afterwards.
\<close>

fun terminal :: "transport_event \<Rightarrow> bool" where
  "terminal (Next Response) = True"
| "terminal (Next _) = False"
| "terminal (Fail _) = True"

definition handle :: "nat \<Rightarrow> transport_event \<Rightarrow> world \<Rightarrow> world" where
  "handle a ev s = (case ev of Next e \<Rightarrow> next_handler a e s | Fail m \<Rightarrow> error_handler a m s)"

definition deliver :: "nat \<Rightarrow> transport_event \<Rightarrow> world \<Rightarrow> world" where
  "deliver k ev s =
     (let s1 = handle (req_item (requests s ! k)) ev s
      in if terminal ev
         then s1\<lparr>requests := take k (requests s1) @ drop (Suc k) (requests s1)\<rparr>
         else s1)"

text \<open>\<^verbatim>\<open>Array.prototype.findIndex\<close>: the first position where the test holds, or -1.\<close>

fun findIndex :: "('a \<Rightarrow> bool) \<Rightarrow> 'a list \<Rightarrow> int" where
  "findIndex P [] = - 1"
| "findIndex P (x # xs) =
     (if P x then 0 else (let r = findIndex P xs in if r < 0 then - 1 else r + 1))"

text \<open>
  The \<^verbatim>\<open>forEach\<close> of \<open>uploadAllFiles\<close> over the snapshot \<open>pendingFiles\<close>, which
  is taken once, before the loop; an exception of \<open>uploadFile\<close> ends the loop.
\<close>

fun forEach_upload :: "nat list \<Rightarrow> world \<Rightarrow> js_error + world" where
  "forEach_upload [] s = Inr s"
| "forEach_upload (p # ps) s =
     (let originalIndex = findIndex (\<lambda>f. f = p) (uploadedFiles s)
      in case uploadFile originalIndex s of
           Inl e \<Rightarrow> Inl e
         | Inr s' \<Rightarrow> forEach_upload ps s')"

definition pendingFiles :: "world \<Rightarrow> nat list" where
  "pendingFiles s = filter (\<lambda>f. status (heap s ! f) = Pending) (uploadedFiles s)"

definition uploadAllFiles :: "world \<Rightarrow> js_error + world" where
  "uploadAllFiles s = forEach_upload (pendingFiles s) s"

text \<open>
  \<^verbatim>\<open>this.uploadedFiles.splice(index, 1)\<close>: a negative start counts from the end,
  and a start beyond the end removes nothing.
\<close>

definition removeFile :: "int \<Rightarrow> world \<Rightarrow> world" where
  "removeFile index s =
     (let len = int (length (uploadedFiles s));
          start = (if index < 0 then max (len + index) 0 else min index len)
      in s\<lparr>uploadedFiles :=
             take (nat start) (uploadedFiles s) @ drop (nat start + 1) (uploadedFiles s)\<rparr>)"

definition hasPendingFiles :: "world \<Rightarrow> bool" where
  "hasPendingFiles s = list_ex (\<lambda>f. status (heap s ! f) = Pending) (uploadedFiles s)"

section \<open>Runs of the component\<close>

text \<open>
  What can happen to the component: the user adds files, starts one upload or all
  of them, removes a queue entry; the transport delivers an event to a request
  in flight; time passes. \<open>run\<close> applies a sequence of such actions and stops
  at the first exception.
\<close>

datatype action =
    AddFiles "File list"
  | UploadFile int
  | UploadAllFiles
  | RemoveFile int
  | Deliver nat transport_event
  | Advance nat

fun exec :: "action \<Rightarrow> world \<Rightarrow> js_error + world" where
  "exec (AddFiles files) s = Inr (addFiles files s)"
| "exec (UploadFile index) s = uploadFile index s"
| "exec UploadAllFiles s = uploadAllFiles s"
| "exec (RemoveFile index) s = Inr (removeFile index s)"
| "exec (Deliver k ev) s = (if k < length (requests s) then Inr (deliver k ev s) else Inr s)"
| "exec (Advance d) s = Inr (advance d s)"

fun run :: "action list \<Rightarrow> world \<Rightarrow> js_error + world" where
  "run [] s = Inr s"
| "run (a # as) s = (case exec a s of Inl e \<Rightarrow> Inl e | Inr s' \<Rightarrow> run as s')"

text \<open>
  The invariant of the states the component can be in: the queue holds each
  object once and only objects of the store; a request in flight belongs to an
  object of the store that is uploading, and no two belong to the same object;
  an object with status success has progress 100.
\<close>

definition wf_world :: "world \<Rightarrow> bool" where
  "wf_world s \<longleftrightarrow>
     distinct (uploadedFiles s) \<and>
     (\<forall>a \<in> set (uploadedFiles s). a < length (heap s)) \<and>
     (\<forall>r \<in> set (requests s).
        req_item r < length (heap s) \<and> status (heap s ! req_item r) = Uploading) \<and>
     distinct (map req_item (requests s)) \<and>
     (\<forall>x \<in> set (heap s). status x = Success \<longrightarrow> progress x = 100)"

text \<open>The records of the queue, in queue order.\<close>

definition queue_records :: "world \<Rightarrow> UploadedFile list" where
  "queue_records s = map (\<lambda>a. heap s ! a) (uploadedFiles s)"

text \<open>
  The progress formula in the words of the specification:
  \<^verbatim>\<open>round(100 * bytesSent / max(totalBytes, 1))\<close>, in exact arithmetic, an absent
  total counting as 0.
\<close>

definition spec_progress :: "nat \<Rightarrow> nat option \<Rightarrow> int" where
  "spec_progress bytesSent totalBytes =
     round (100 * rat_of_nat bytesSent /
            rat_of_nat (max (case totalBytes of None \<Rightarrow> 0 | Some t \<Rightarrow> t) 1))"

section \<open>Basic facts\<close>

lemmas valid_eval =
  isValidFile_def validExtensions_def endsWith_def maxSize_def toLowerCase_def
  lowerChar_def upper_lower_def

lemma endsWith_suffix: "endsWith s ext \<longleftrightarrow> suffix ext s"
proof
  assume "endsWith s ext"
  then have "s = take (length s - length ext) s @ ext"
    unfolding endsWith_def by (metis append_take_drop_id)
  then show "suffix ext s" unfolding suffix_def by blast
next
  assume "suffix ext s"
  then obtain zs where "s = zs @ ext" unfolding suffix_def by blast
  then show "endsWith s ext" unfolding endsWith_def by simp
qed

lemma maxSize_val: "maxSize = 209715200"
  by (simp add: maxSize_def)

lemma showAlert_fields [simp]:
  "uploadedFiles (showAlert m k s) = uploadedFiles s"
  "heap (showAlert m k s) = heap s"
  "requests (showAlert m k s) = requests s"
  "isUploading (showAlert m k s) = isUploading s"
  "now (showAlert m k s) = now s"
  "timers (showAlert m k s) = timers s @ [now s + 5000]"
  "alertMessage (showAlert m k s) = m"
  "alertType (showAlert m k s) = ''alert-'' @ kind_string k"
  by (simp_all add: showAlert_def)

lemma fold_push_item:
  "fold push_item fs s =
     s\<lparr>uploadedFiles := uploadedFiles s @ [length (heap s) ..< length (heap s) + length fs],
       heap := heap s @ map new_item fs\<rparr>"
proof (induction fs rule: rev_induct)
  case Nil
  show ?case by simp
next
  case (snoc f fs)
  have "fold push_item (fs @ [f]) s = push_item f (fold push_item fs s)"
    by simp
  also have "\<dots> = s\<lparr>uploadedFiles := uploadedFiles s @ [length (heap s) ..< length (heap s) + length (fs @ [f])],
       heap := heap s @ map new_item (fs @ [f])\<rparr>"
    unfolding snoc.IH by (simp add: push_item_def)
  finally show ?case .
qed

lemma filter_length_neq: "length (filter P xs) \<noteq> length xs \<longleftrightarrow> (\<exists>x \<in> set xs. \<not> P x)"
proof
  assume "length (filter P xs) \<noteq> length xs"
  then have "filter P xs \<noteq> xs" by auto
  then show "\<exists>x \<in> set xs. \<not> P x" by (simp add: filter_id_conv)
next
  assume "\<exists>x \<in> set xs. \<not> P x"
  then obtain x where "x \<in> set xs" "\<not> P x" by blast
  then have "length (filter P xs) < length xs" by (rule length_filter_less)
  then show "length (filter P xs) \<noteq> length xs" by simp
qed

section \<open>Validation of a file\<close>

text \<open>
  Claim C1. \<open>isValidFile f\<close> is true exactly when the lower-cased name of \<open>f\<close> ends
  with \<^verbatim>\<open>.xml\<close>, \<^verbatim>\<open>.dat\<close> or \<^verbatim>\<open>.nrs\<close> and the size of \<open>f\<close> is at most
  209715200 bytes; the bound is inclusive.
\<close>

theorem isValidFile_iff:
  "isValidFile f \<longleftrightarrow>
     (suffix ''.xml'' (toLowerCase (name f)) \<or>
      suffix ''.dat'' (toLowerCase (name f)) \<or>
      suffix ''.nrs'' (toLowerCase (name f))) \<and>
     size_bytes f \<le> 209715200"
  by (simp add: isValidFile_def validExtensions_def endsWith_suffix maxSize_val)

theorem isValidFile_iff_witness:
  "isValidFile \<lparr>name = ''Rec.XML'', size_bytes = 209715200\<rparr> \<and>
   \<not> isValidFile \<lparr>name = ''Rec.XML'', size_bytes = 209715201\<rparr> \<and>
   \<not> isValidFile \<lparr>name = ''rec.xml.txt'', size_bytes = 10\<rparr>"
  using isValidFile_iff [of "\<lparr>name = ''Rec.XML'', size_bytes = 209715200\<rparr>"]
  by (simp add: valid_eval)

section \<open>Adding files\<close>

text \<open>
  Claim C3. \<open>addFiles\<close> appends to the queue exactly the candidates that satisfy
  \<open>isValidFile\<close>, in input order, each as a new record with status pending and
  progress 0, whatever the queue already holds. It raises one alert of kind error
  if a candidate was rejected, and no alert otherwise.
\<close>

theorem addFiles_appends_valid:
  assumes "wf_world s"
  shows "queue_records (addFiles files s)
           = queue_records s @
             map (\<lambda>f. \<lparr>file_obj = f, progress = 0, status = Pending, error = None\<rparr>)
               (filter isValidFile files) \<and>
         (if \<exists>f \<in> set files. \<not> isValidFile f
          then alertMessage (addFiles files s)
                 = ''Some files were skipped due to invalid format or size'' \<and>
               alertType (addFiles files s) = ''alert-error'' \<and>
               timers (addFiles files s) = timers s @ [now s + 5000]
          else alertMessage (addFiles files s) = alertMessage s \<and>
               alertType (addFiles files s) = alertType s \<and>
               timers (addFiles files s) = timers s)"
proof -
  have v: "\<forall>a \<in> set (uploadedFiles s). a < length (heap s)"
    using assms by (simp add: wf_world_def)
  have n: "new_item = (\<lambda>f. \<lparr>file_obj = f, progress = 0, status = Pending, error = None\<rparr>)"
    by (rule ext) (simp add: new_item_def)
  have "queue_records (addFiles files s)
             = queue_records s @ map new_item (filter isValidFile files)"
    using v by (auto simp: queue_records_def addFiles_def Let_def fold_push_item nth_append
        intro!: nth_equalityI)
  then have q: "queue_records (addFiles files s)
           = queue_records s @
             map (\<lambda>f. \<lparr>file_obj = f, progress = 0, status = Pending, error = None\<rparr>)
               (filter isValidFile files)"
    unfolding n .
  have a: "(\<exists>f \<in> set files. \<not> isValidFile f) \<Longrightarrow>
       alertMessage (addFiles files s) = ''Some files were skipped due to invalid format or size''
         \<and> alertType (addFiles files s) = ''alert-error''
         \<and> timers (addFiles files s) = timers s @ [now s + 5000]"
    by (simp add: addFiles_def Let_def fold_push_item filter_length_neq)
  have b: "\<not> (\<exists>f \<in> set files. \<not> isValidFile f) \<Longrightarrow>
       alertMessage (addFiles files s) = alertMessage s
         \<and> alertType (addFiles files s) = alertType s
         \<and> timers (addFiles files s) = timers s"
    by (simp add: addFiles_def Let_def fold_push_item filter_length_neq)
  show ?thesis using q a b by presburger
qed

theorem addFiles_appends_valid_witness:
  "wf_world init \<and>
   queue_records (addFiles [\<lparr>name = ''a.xml'', size_bytes = 10\<rparr>,
                            \<lparr>name = ''b.exe'', size_bytes = 10\<rparr>] init)
     = [\<lparr>file_obj = \<lparr>name = ''a.xml'', size_bytes = 10\<rparr>, progress = 0,
         status = Pending, error = None\<rparr>] \<and>
   alertType (addFiles [\<lparr>name = ''a.xml'', size_bytes = 10\<rparr>,
                        \<lparr>name = ''b.exe'', size_bytes = 10\<rparr>] init) = ''alert-error''"
  using addFiles_appends_valid [of init "[\<lparr>name = ''a.xml'', size_bytes = 10\<rparr>,
                                          \<lparr>name = ''b.exe'', size_bytes = 10\<rparr>]"]
  by (simp add: wf_world_def init_def queue_records_def new_item_def valid_eval)

section \<open>Binary64 rounding\<close>

lemma bit_length_lower: "n \<noteq> 0 \<Longrightarrow> 2 ^ (bit_length n - 1) \<le> n"
proof (induction n rule: bit_length.induct)
  case (1 n)
  show ?case
  proof (cases "n div 2 = 0")
    case True
    with "1.prems" show ?thesis
      by (simp add: bit_length.simps[of n] bit_length.simps[of 0])
  next
    case False
    from "1.IH"[OF "1.prems" False] have "2 ^ (bit_length (n div 2) - 1) \<le> n div 2" .
    moreover have "bit_length (n div 2) \<noteq> 0"
      using False by (simp add: bit_length.simps[of "n div 2"])
    ultimately have "2 ^ bit_length (n div 2) \<le> 2 * (n div 2)"
      by (cases "bit_length (n div 2)") simp_all
    then show ?thesis
      using "1.prems" by (simp add: bit_length.simps[of n])
  qed
qed

lemma bit_length_upper: "n < 2 ^ bit_length n"
proof (induction n rule: bit_length.induct)
  case (1 n)
  show ?case
  proof (cases "n = 0")
    case True
    then show ?thesis by simp
  next
    case False
    from "1.IH"[OF False] have "n div 2 < 2 ^ bit_length (n div 2)" .
    then have "n < 2 * 2 ^ bit_length (n div 2)" by linarith
    then show ?thesis using False by (simp add: bit_length.simps[of n])
  qed
qed

lemma bit_length_le: "n < 2 ^ k \<Longrightarrow> bit_length n \<le> k"
proof (rule ccontr)
  assume n: "n < 2 ^ k" and "\<not> bit_length n \<le> k"
  then have k: "k \<le> bit_length n - 1" by simp
  have "n \<noteq> 0"
  proof
    assume "n = 0"
    then have "bit_length n = 0" by (simp add: bit_length.simps[of 0])
    with \<open>\<not> bit_length n \<le> k\<close> show False by simp
  qed
  from k have "(2::nat) ^ k \<le> 2 ^ (bit_length n - 1)" by (intro power_increasing) simp_all
  also have "\<dots> \<le> n" using \<open>n \<noteq> 0\<close> by (rule bit_length_lower)
  finally show False using n by simp
qed

lemma rne_of_int [simp]: "rne (of_int k) = k"
  by (simp add: rne_def)

lemma rne_ge_floor: "\<lfloor>x\<rfloor> \<le> rne x"
  by (simp add: rne_def Let_def)

lemma rne_le_round: "rne x \<le> \<lfloor>x + 1 / 2\<rfloor>"
proof -
  have "\<lfloor>x\<rfloor> \<le> \<lfloor>x + 1 / 2\<rfloor>" by (intro floor_mono) simp
  moreover have "\<lfloor>x\<rfloor> + 1 \<le> \<lfloor>x + 1 / 2\<rfloor>" if "\<not> x - of_int \<lfloor>x\<rfloor> < 1 / 2"
  proof -
    from that have "of_int (\<lfloor>x\<rfloor> + 1) \<le> x + 1 / 2" by simp
    then show ?thesis by (simp only: le_floor_iff)
  qed
  ultimately show ?thesis by (auto simp: rne_def Let_def)
qed

lemma ilog2_le:
  assumes "0 < x"
  shows "2 powi (ilog2 x) \<le> x"
proof (cases "1 \<le> x")
  case True
  define n where "n = nat \<lfloor>x\<rfloor>"
  have f: "1 \<le> \<lfloor>x\<rfloor>" using True by (simp only: le_floor_iff of_int_1)
  then have p: "n \<noteq> 0" by (simp add: n_def)
  then have "bit_length n \<noteq> 0" by (simp add: bit_length.simps[of n])
  then have "int (bit_length n) - 1 = int (bit_length n - 1)" by simp
  then have "ilog2 x = int (bit_length n - 1)"
    using True unfolding ilog2_def n_def by (simp only: if_True)
  then have "(2::rat) powi (ilog2 x) = of_nat (2 ^ (bit_length n - 1))"
    by (simp only: power_int_of_nat of_nat_power of_nat_numeral)
  also have "\<dots> \<le> of_nat n"
    using bit_length_lower[OF p] by (simp only: of_nat_le_iff)
  also have "\<dots> = of_int \<lfloor>x\<rfloor>" using f by (simp add: n_def)
  also have "\<dots> \<le> x" by (rule of_int_floor_le)
  finally show ?thesis .
next
  case False
  define m where "m = nat (\<lceil>1 / x\<rceil> - 1)"
  define b where "b = bit_length m"
  have "x < 1" using False by simp
  then have "1 < 1 / x" using assms by (simp add: less_divide_eq_1_pos)
  then have c: "1 < \<lceil>1 / x\<rceil>" by (simp only: less_ceiling_iff of_int_1)
  have "m + 1 \<le> 2 ^ b" using bit_length_upper[of m] unfolding b_def by linarith
  then have "(of_nat (m + 1) :: rat) \<le> of_nat (2 ^ b)" by (simp only: of_nat_le_iff)
  then have le: "(of_int (int (m + 1)) :: rat) \<le> 2 ^ b" by simp
  have "int (m + 1) = \<lceil>1 / x\<rceil>" using c unfolding m_def by linarith
  with le have "(of_int \<lceil>1 / x\<rceil> :: rat) \<le> 2 ^ b" by (simp only:)
  moreover have "1 / x \<le> of_int \<lceil>1 / x\<rceil>" by (rule le_of_int_ceiling)
  ultimately have "1 / x \<le> 2 ^ b" by (rule order_trans[rotated])
  then have "1 \<le> 2 ^ b * x" using assms by (simp only: pos_divide_le_eq)
  then have "1 / 2 ^ b \<le> x" by (simp add: pos_divide_le_eq mult.commute)
  moreover have "ilog2 x = - int b"
    using False unfolding ilog2_def m_def b_def by (simp only: if_False)
  then have "(2::rat) powi (ilog2 x) = 1 / 2 ^ b"
    by (simp only: power_int_minus power_int_of_nat inverse_eq_divide)
  ultimately show ?thesis by simp
qed

lemma fp64_of_nat_exact:
  assumes "n < 2 ^ 53"
  shows "fp64 (of_nat n) = of_nat n"
proof (cases "n = 0")
  case True
  then show ?thesis by (simp add: fp64_def)
next
  case False
  define b where "b = bit_length n"
  define k where "k = 53 - b"
  have b53: "b \<le> 53" unfolding b_def using assms by (rule bit_length_le)
  have b0: "b \<noteq> 0" using False unfolding b_def by (simp add: bit_length.simps[of n])
  have "1 \<le> (of_nat n :: rat)" using False by simp
  then have "ilog2 (of_nat n) = int (bit_length (nat \<lfloor>of_nat n :: rat\<rfloor>)) - 1"
    unfolding ilog2_def by (simp only: if_True)
  then have e: "ilog2 (of_nat n) = int b - 1" by (simp add: b_def)
  have "int b - 1 - 52 = - int k" using b53 b0 by (simp add: k_def)
  then have u: "(2::rat) powi (ilog2 (of_nat n) - 52) = 1 / 2 ^ k"
    unfolding e by (simp only: power_int_minus power_int_of_nat inverse_eq_divide)
  have "(of_nat n :: rat) / (1 / 2 ^ k) = of_int (int n * 2 ^ k)" by simp
  then have "rne (of_nat n / (1 / 2 ^ k)) = int n * 2 ^ k" by (simp only: rne_of_int)
  then have "fp64_pos (of_nat n) = of_int (int n * 2 ^ k) * (1 / 2 ^ k)"
    unfolding fp64_pos_def Let_def u by (simp only:)
  also have "\<dots> = of_nat n" by simp
  finally show ?thesis using False by (simp add: fp64_def)
qed

lemma fp64_quotient_round:
  assumes T: "0 < T" and P: "P < 2 ^ 52"
  shows "Math_round (fp64 (of_nat P / of_nat T)) = round (of_nat P / of_nat T :: rat)"
proof (cases "P = 0")
  case True
  have "\<lfloor>1 / 2 :: rat\<rfloor> = 0" by (rule floor_unique) simp_all
  with True show ?thesis by (simp add: fp64_def Math_round_def)
next
  case False
  define q :: rat where "q = of_nat P / of_nat T"
  define e where "e = ilog2 q"
  define k where "k = nat (51 - e)"
  define S :: rat where "S = 2 * 2 ^ k"
  define n where "n = round q"
  have q0: "0 < q" using False T by (simp add: q_def)
  have Tq: "of_nat T * q = of_nat P" using T by (simp add: q_def)
  have qP: "q \<le> of_nat P"
  proof -
    have "1 * q \<le> of_nat T * q" using T q0 by (intro mult_right_mono) simp_all
    then show ?thesis unfolding Tq by simp
  qed
  have le: "2 powi e \<le> q" unfolding e_def using q0 by (rule ilog2_le)
  have "(of_nat P :: rat) < of_nat (2 ^ 52)" using P by (simp only: of_nat_less_iff)
  then have "q < 2 powi 52" using qP by simp
  with le have "(2::rat) powi e < 2 powi 52" by simp
  then have "e < 52" by (rule power_int_le_imp_less_exp[rotated]) simp_all
  then have ek: "e - 52 = - int (Suc k)" "52 = e + int (Suc k)" by (simp_all add: k_def)
  have u: "(2::rat) powi (e - 52) = 1 / S"
    unfolding ek(1) S_def by (simp only: power_int_minus power_int_of_nat inverse_eq_divide power_Suc)
  have S0: "0 < S" by (simp add: S_def)
  have "(2::rat) powi (e + int (Suc k)) = 2 powi e * 2 powi (int (Suc k))"
    by (rule power_int_add) simp
  then have "(2::rat) powi 52 = 2 powi e * 2 powi (int (Suc k))"
    by (simp only: ek(2)[symmetric])
  then have p52: "(2::rat) powi 52 = 2 powi e * S"
    by (simp only: power_int_of_nat power_Suc S_def)
  have TS: "of_nat T < S"
  proof -
    have "of_nat T * 2 powi e \<le> of_nat T * q" using le by (intro mult_left_mono) simp_all
    also have "\<dots> < 2 powi 52" unfolding Tq using \<open>(of_nat P :: rat) < of_nat (2 ^ 52)\<close> by simp
    also have "\<dots> = S * 2 powi e" unfolding p52 by (rule mult.commute)
    finally show ?thesis by (simp only: mult_less_cancel_right_pos zero_less_power_int zero_less_numeral)
  qed
  have fp: "fp64 q = of_int (rne (q * S)) / S"
    using q0 unfolding fp64_def fp64_pos_def Let_def e_def[symmetric] u by simp
  have n1: "of_int n \<le> q + 1 / 2" and n2: "q + 1 / 2 < of_int n + 1"
    unfolding n_def round_def by linarith+
  have "of_int ((2 * n - 1) * 2 ^ k) = (of_int n - 1 / 2) * S" by (simp add: S_def field_simps)
  also have "\<dots> \<le> q * S" using n1 S0 by (intro mult_right_mono) simp_all
  finally have "(2 * n - 1) * 2 ^ k \<le> \<lfloor>q * S\<rfloor>" by (simp only: le_floor_iff)
  also have "\<dots> \<le> rne (q * S)" by (rule rne_ge_floor)
  finally have "(of_int ((2 * n - 1) * 2 ^ k) :: rat) \<le> of_int (rne (q * S))" by (simp only: of_int_le_iff)
  then have "of_int ((2 * n - 1) * 2 ^ k) / S \<le> fp64 q"
    unfolding fp using S0 by (simp only: divide_right_mono less_imp_le)
  moreover have "of_int ((2 * n - 1) * 2 ^ k) / S = of_int n - 1 / 2" by (simp add: S_def field_simps)
  ultimately have lo: "of_int n \<le> fp64 q + 1 / 2" by simp
  have "of_nat P / of_nat T < (of_int n + 1 / 2 :: rat)" using n2 by (simp add: q_def)
  then have "(of_nat P :: rat) < (of_int n + 1 / 2) * of_nat T"
    using T by (simp add: pos_divide_less_eq)
  then have "(of_int (2 * int P) :: rat) < of_int ((2 * n + 1) * int T)" by (simp add: field_simps)
  then have "2 * int P < (2 * n + 1) * int T" by (simp only: of_int_less_iff)
  then have "2 * int P + 1 \<le> (2 * n + 1) * int T" by simp
  then have "(of_int (2 * int P + 1) :: rat) \<le> of_int ((2 * n + 1) * int T)" by (simp only: of_int_le_iff)
  then have "2 * of_nat T * q + 1 \<le> (2 * of_int n + 1) * of_nat T"
    using Tq by (simp add: algebra_simps)
  then have gap: "2 * q + 1 / of_nat T \<le> 2 * of_int n + 1"
    using T by (simp add: field_simps)
  have "1 < S / of_nat T" using TS T by simp
  then have "2 * (q * S) + 1 < (2 * q + 1 / of_nat T) * S" by (simp add: algebra_simps)
  also have "\<dots> \<le> (2 * of_int n + 1) * S" using gap S0 by (intro mult_right_mono) simp_all
  finally have "q * S + 1 / 2 < of_int ((2 * n + 1) * 2 ^ k)" by (simp add: S_def field_simps)
  then have "\<lfloor>q * S + 1 / 2\<rfloor> < (2 * n + 1) * 2 ^ k" by (simp only: floor_less_iff)
  with rne_le_round[of "q * S"] have "rne (q * S) \<le> (2 * n + 1) * 2 ^ k - 1" by simp
  then have "(of_int (rne (q * S)) :: rat) \<le> of_int ((2 * n + 1) * 2 ^ k - 1)" by (simp only: of_int_le_iff)
  then have "fp64 q \<le> of_int ((2 * n + 1) * 2 ^ k - 1) / S"
    unfolding fp using S0 by (simp only: divide_right_mono less_imp_le)
  also have "\<dots> = of_int n + 1 / 2 - 1 / S" by (simp add: S_def field_simps)
  also have "\<dots> < of_int n + 1 / 2" using S0 by simp
  finally have hi: "fp64 q + 1 / 2 < of_int n + 1" by simp
  from lo hi have "\<lfloor>fp64 q + 1 / 2\<rfloor> = n" by (rule floor_unique)
  then show ?thesis unfolding Math_round_def q_def n_def .
qed


lemma to_double_exact: "unat w < 2 ^ 53 \<Longrightarrow> to_double w = of_nat (unat w)"
  unfolding to_double_def by (rule fp64_of_nat_exact)

lemma next_progress_exact:
  assumes l: "100 * unat loaded < 2 ^ 52"
    and t: "unat (case tot of None \<Rightarrow> 0 | Some t \<Rightarrow> t) < 2 ^ 53"
  shows "next_progress loaded tot = spec_progress (unat loaded) (map_option unat tot)"
proof -
  define d where "d = max (case map_option unat tot of None \<Rightarrow> 0 | Some t \<Rightarrow> t) 1"
  have "unat loaded < 2 ^ 53" using l by simp
  then have "to_double loaded = of_nat (unat loaded)" by (rule to_double_exact)
  then have "100 * to_double loaded = of_nat (100 * unat loaded)" by simp
  moreover have "fp64 (of_nat (100 * unat loaded)) = of_nat (100 * unat loaded)"
    using l by (intro fp64_of_nat_exact) simp
  ultimately have p: "fp64 (100 * to_double loaded) = of_nat (100 * unat loaded)" by simp
  have d: "total_or_1 tot = of_nat d"
  proof (cases tot)
    case None
    then show ?thesis by (simp add: total_or_1_def d_def)
  next
    case (Some w)
    define n where "n = unat w"
    have "n < 2 ^ 53" using t Some by (simp add: n_def)
    then have "fp64 (of_nat n) = of_nat n" by (rule fp64_of_nat_exact)
    then have w: "to_double w = of_nat n" by (simp only: to_double_def n_def)
    have "d = max n 1" using Some by (simp add: d_def n_def)
    then have eq: "(if (of_nat n :: rat) = 0 then 1 else of_nat n) = of_nat d"
      by (cases "n = 0") simp_all
    have "total_or_1 tot = (if (of_nat n :: rat) = 0 then 1 else of_nat n)"
      unfolding Some total_or_1_def by (simp only: option.case w cong: if_cong)
    then show ?thesis unfolding eq .
  qed
  have "0 < d" by (simp add: d_def)
  from fp64_quotient_round[OF this l]
  have "next_progress loaded tot = round (of_nat (100 * unat loaded) / of_nat d :: rat)"
    unfolding next_progress_def p d .
  then show ?thesis by (simp add: spec_progress_def d_def)
qed

lemma next_progress_10_10: "next_progress 10 (Some 10) = 100"
  using next_progress_exact[of 10 "Some 10"] by (simp add: spec_progress_def)

lemma next_progress_5_10: "next_progress 5 (Some 10) = 50"
  using next_progress_exact[of 5 "Some 10"] by (simp add: spec_progress_def)


section \<open>Progress events\<close>




section \<open>Indices outside the queue\<close>

text \<open>
  Claim C10. \<open>uploadFile\<close> is not total: at an index below 0 or from the length of
  the queue on, it throws a \<^verbatim>\<open>TypeError\<close> (it reads \<^verbatim>\<open>status\<close> of
  \<^verbatim>\<open>undefined\<close>), and it throws at no other index.
\<close>

theorem uploadFile_out_of_bounds:
  "uploadFile index s = Inl TypeError \<longleftrightarrow>
     index < 0 \<or> int (length (uploadedFiles s)) \<le> index"
  by (simp add: uploadFile_def Let_def)

theorem uploadFile_out_of_bounds_witness:
  "uploadFile 1 (addFiles [\<lparr>name = ''a.xml'', size_bytes = 10\<rparr>] init) = Inl TypeError \<and>
   uploadFile (- 1) (addFiles [\<lparr>name = ''a.xml'', size_bytes = 10\<rparr>] init) = Inl TypeError \<and>
   uploadFile 0 (addFiles [\<lparr>name = ''a.xml'', size_bytes = 10\<rparr>] init) \<noteq> Inl TypeError"
  using uploadFile_out_of_bounds [of 1 "addFiles [\<lparr>name = ''a.xml'', size_bytes = 10\<rparr>] init"]
    uploadFile_out_of_bounds [of "- 1" "addFiles [\<lparr>name = ''a.xml'', size_bytes = 10\<rparr>] init"]
    uploadFile_out_of_bounds [of 0 "addFiles [\<lparr>name = ''a.xml'', size_bytes = 10\<rparr>] init"]
  by (simp add: addFiles_def init_def push_item_def valid_eval)

section \<open>The invariant is preserved\<close>

lemma wf_showAlert [simp]: "wf_world (showAlert m k s) = wf_world s"
  by (simp add: wf_world_def)

lemma fold_clearAlert_fields [simp]:
  "uploadedFiles (fold (\<lambda>_. clearAlert) xs s) = uploadedFiles s"
  "heap (fold (\<lambda>_. clearAlert) xs s) = heap s"
  "requests (fold (\<lambda>_. clearAlert) xs s) = requests s"
  by (induction xs arbitrary: s) (simp_all add: clearAlert_def)

lemma advance_fields [simp]:
  "uploadedFiles (advance d s) = uploadedFiles s"
  "heap (advance d s) = heap s"
  "requests (advance d s) = requests s"
  by (simp_all add: advance_def Let_def)

lemma wf_advance: "wf_world (advance d s) = wf_world s"
  by (simp add: wf_world_def)

lemma wf_init: "wf_world init"
  by (simp add: wf_world_def init_def)

lemma wf_addFiles:
  assumes "wf_world s"
  shows "wf_world (addFiles files s)"
proof -
  have "wf_world (fold push_item fs t)" if "wf_world t" for fs t
    using that
    by (auto simp: fold_push_item wf_world_def nth_append new_item_def)
  then show ?thesis using assms by (simp add: addFiles_def Let_def)
qed

lemma wf_uploadFile:
  assumes "wf_world s" and "uploadFile i s = Inr s'"
  shows "wf_world s'"
proof (cases "status (heap s ! (uploadedFiles s ! nat i)) = Uploading")
  case True
  with assms show ?thesis by (auto simp: uploadFile_def Let_def split: if_splits)
next
  case False
  let ?a = "uploadedFiles s ! nat i"
  from assms(2) have ib: "0 \<le> i" "nat i < length (uploadedFiles s)"
    by (auto simp: uploadFile_def split: if_splits)
  then have a: "?a < length (heap s)" using assms(1) by (simp add: wf_world_def)
  from assms(2) False ib have s': "s' = s\<lparr>heap := (heap s)[?a := (heap s ! ?a)\<lparr>status := Uploading\<rparr>],
                       isUploading := True,
                       requests := requests s @
                         [\<lparr>req_item = ?a, req_file = file_obj (heap s ! ?a), req_type = ''neural-data''\<rparr>]\<rparr>"
    by (auto simp: uploadFile_def Let_def split: if_splits)
  have fresh: "?a \<notin> req_item ` set (requests s)"
    using assms(1) False by (auto simp: wf_world_def)
  have h: "\<forall>x \<in> set ((heap s)[?a := (heap s ! ?a)\<lparr>status := Uploading\<rparr>]).
             status x = Success \<longrightarrow> progress x = 100"
    using assms(1) by (auto simp: wf_world_def dest!: set_update_subset_insert[THEN subsetD])
  show ?thesis
    using assms(1) a fresh h unfolding s'
    by (auto simp: wf_world_def nth_list_update)
qed

lemma wf_forEach_upload:
  "wf_world s \<Longrightarrow> forEach_upload ps s = Inr s' \<Longrightarrow> wf_world s'"
  by (induction ps arbitrary: s) (auto simp: Let_def split: sum.splits dest: wf_uploadFile)

lemma wf_uploadAllFiles:
  "wf_world s \<Longrightarrow> uploadAllFiles s = Inr s' \<Longrightarrow> wf_world s'"
  by (auto simp: uploadAllFiles_def Let_def dest: wf_forEach_upload)

lemma removeFile_sub: "set (uploadedFiles (removeFile i s)) \<subseteq> set (uploadedFiles s)"
  by (auto simp: removeFile_def Let_def dest: in_set_takeD in_set_dropD)

lemma distinct_take_drop:
  assumes "distinct xs"
  shows "distinct (take n xs @ drop (Suc n) xs)"
proof -
  have "set (take n xs) \<inter> set (drop n xs) = {}"
    using assms by (metis append_take_drop_id distinct_append)
  moreover have "set (drop (Suc n) xs) \<subseteq> set (drop n xs)"
    by (metis drop_Suc set_drop_subset tl_drop drop_drop plus_1_eq_Suc)
  ultimately have "set (take n xs) \<inter> set (drop (Suc n) xs) = {}"
    by blast
  then show ?thesis
    using assms by (simp add: distinct_take distinct_drop)
qed

lemma wf_removeFile:
  assumes "wf_world s" shows "wf_world (removeFile i s)"
proof -
  define n where "n = nat (if i < 0 then max (int (length (uploadedFiles s)) + i) 0
                           else min i (int (length (uploadedFiles s))))"
  have eq: "uploadedFiles (removeFile i s)
              = take n (uploadedFiles s) @ drop (Suc n) (uploadedFiles s)"
    by (simp add: removeFile_def Let_def n_def)
  have "distinct (uploadedFiles s)" using assms by (simp add: wf_world_def)
  then have "distinct (uploadedFiles (removeFile i s))"
    unfolding eq by (rule distinct_take_drop)
  moreover have "heap (removeFile i s) = heap s" "requests (removeFile i s) = requests s"
    by (simp_all add: removeFile_def Let_def)
  ultimately show ?thesis using assms removeFile_sub[of i s]
    by (auto simp: wf_world_def)
qed

lemma distinct_map_others:
  assumes "distinct (map f xs)" and "k < length xs"
  shows "\<forall>x \<in> set (take k xs @ drop (Suc k) xs). f x \<noteq> f (xs ! k)"
proof -
  have "xs = take k xs @ xs ! k # drop (Suc k) xs"
    using assms(2) by (rule id_take_nth_drop)
  then have "map f xs = map f (take k xs) @ f (xs ! k) # map f (drop (Suc k) xs)"
    by (metis list.simps(9) map_append)
  with assms(1) have "distinct (map f (take k xs) @ f (xs ! k) # map f (drop (Suc k) xs))"
    by simp
  then show ?thesis by (auto simp: image_iff)
qed

lemma distinct_map_take_drop:
  assumes "distinct (map f xs)"
  shows "distinct (map f (take k xs @ drop (Suc k) xs))"
  using distinct_take_drop[OF assms, of k] by (simp add: take_map drop_map)

lemma wf_transfer:
  "wf_world t \<Longrightarrow> uploadedFiles u = uploadedFiles t \<Longrightarrow> heap u = heap t
     \<Longrightarrow> requests u = requests t \<Longrightarrow> wf_world u"
  by (simp add: wf_world_def)

lemma wf_set_item:
  assumes "wf_world s" and "a < length (heap s)"
    and "status x = Success \<longrightarrow> progress x = 100"
    and "\<forall>r \<in> set rs. r \<in> set (requests s) \<and> (req_item r = a \<longrightarrow> status x = Uploading)"
    and "distinct (map req_item rs)"
  shows "wf_world (s\<lparr>heap := (heap s)[a := x], requests := rs\<rparr>)"
proof -
  have h: "\<forall>y \<in> set ((heap s)[a := x]). status y = Success \<longrightarrow> progress y = 100"
    using assms(1,3) by (auto simp: wf_world_def dest!: set_update_subset_insert[THEN subsetD])
  show ?thesis
    using assms h by (auto simp: wf_world_def nth_list_update)
qed

lemma wf_deliver:
  assumes "wf_world s" and "k < length (requests s)"
  shows "wf_world (deliver k ev s)"
proof -
  let ?a = "req_item (requests s ! k)"
  let ?rs = "take k (requests s) @ drop (Suc k) (requests s)"
  have mem: "requests s ! k \<in> set (requests s)" using assms(2) by simp
  then have a: "?a < length (heap s)" and up: "status (heap s ! ?a) = Uploading"
    using assms(1) by (auto simp: wf_world_def)
  have d: "distinct (map req_item (requests s))" using assms(1) by (simp add: wf_world_def)
  have others: "\<forall>r \<in> set ?rs. r \<in> set (requests s) \<and> (req_item r = ?a \<longrightarrow> status x = Uploading)" for x
    using distinct_map_others[OF d assms(2)] by (auto dest: in_set_takeD in_set_dropD)
  have drs: "distinct (map req_item ?rs)" using d by (rule distinct_map_take_drop)
  show ?thesis
  proof (cases ev)
    case (Next e)
    show ?thesis
    proof (cases e)
      case (UploadProgress l t)
      let ?x = "(heap s ! ?a)\<lparr>progress := next_progress l t\<rparr>"
      let ?t = "s\<lparr>heap := (heap s)[?a := ?x], requests := requests s\<rparr>"
      have "wf_world ?t"
        using assms(1) a _ _ d by (rule wf_set_item) (simp_all add: up)
      moreover have "uploadedFiles (deliver k ev s) = uploadedFiles ?t"
        "heap (deliver k ev s) = heap ?t" "requests (deliver k ev s) = requests ?t"
        unfolding Next UploadProgress
        by (simp_all add: deliver_def handle_def next_handler_def)
      ultimately show ?thesis by (rule wf_transfer)
    next
      case Response
      let ?x = "(heap s ! ?a)\<lparr>status := Success, progress := 100\<rparr>"
      let ?t = "s\<lparr>heap := (heap s)[?a := ?x], requests := ?rs\<rparr>"
      have "wf_world ?t"
        using assms(1) a _ others drs by (rule wf_set_item) simp
      moreover have "uploadedFiles (deliver k ev s) = uploadedFiles ?t"
        "heap (deliver k ev s) = heap ?t" "requests (deliver k ev s) = requests ?t"
        unfolding Next Response
        by (simp_all add: deliver_def handle_def next_handler_def)
      ultimately show ?thesis by (rule wf_transfer)
    next
      case OtherEvent
      show ?thesis using assms(1) unfolding Next OtherEvent
        by (simp add: deliver_def handle_def next_handler_def)
    qed
  next
    case (Fail m)
    let ?x = "(heap s ! ?a)\<lparr>status := Error, error := Some (message_or m ''Upload failed'')\<rparr>"
    let ?t = "s\<lparr>heap := (heap s)[?a := ?x], requests := ?rs\<rparr>"
    have "wf_world ?t"
      using assms(1) a _ others drs by (rule wf_set_item) simp
    moreover have "uploadedFiles (deliver k ev s) = uploadedFiles ?t"
      "heap (deliver k ev s) = heap ?t" "requests (deliver k ev s) = requests ?t"
      unfolding Fail
      by (simp_all add: deliver_def handle_def error_handler_def Let_def)
    ultimately show ?thesis by (rule wf_transfer)
  qed
qed

lemma wf_exec: "wf_world s \<Longrightarrow> exec act s = Inr s' \<Longrightarrow> wf_world s'"
  by (cases act)
    (auto simp: wf_addFiles wf_removeFile wf_advance wf_deliver
      dest: wf_uploadFile wf_uploadAllFiles split: if_splits)

lemma wf_run: "wf_world s \<Longrightarrow> run acts s = Inr s' \<Longrightarrow> wf_world s'"
  by (induction acts arbitrary: s) (auto split: sum.splits dest: wf_exec)

section \<open>Starting an upload and its callbacks\<close>

lemmas run_eval = next_progress_10_10 next_progress_5_10 addFiles_def push_item_def new_item_def init_def uploadFile_def deliver_def
  handle_def next_handler_def error_handler_def showAlert_def message_or_def
  Let_def valid_eval


text \<open>
  Claim C4. When the transport ends a request with an error, the record of the
  request gets status error; its error field becomes the message of the error,
  or \<^verbatim>\<open>Upload failed\<close> when the error has no message (an absent or empty
  \<^verbatim>\<open>message\<close>); \<open>isUploading\<close> becomes false; and an alert of kind error
  names the file and that message.
\<close>

theorem upload_error_handler:
  assumes "wf_world s" and "k < length (requests s)"
  shows "status (heap (deliver k (Fail m) s) ! req_item (requests s ! k)) = Error \<and>
         error (heap (deliver k (Fail m) s) ! req_item (requests s ! k))
           = Some (case m of None \<Rightarrow> ''Upload failed''
                   | Some t \<Rightarrow> if t = [] then ''Upload failed'' else t) \<and>
         isUploading (deliver k (Fail m) s) = False \<and>
         alertType (deliver k (Fail m) s) = ''alert-error'' \<and>
         alertMessage (deliver k (Fail m) s)
           = ''Failed to upload '' @ name (file_obj (heap s ! req_item (requests s ! k))) @ '': '' @
             (case m of None \<Rightarrow> ''Upload failed''
              | Some t \<Rightarrow> if t = [] then ''Upload failed'' else t)"
proof -
  have "requests s ! k \<in> set (requests s)" using assms(2) by simp
  then have a: "req_item (requests s ! k) < length (heap s)"
    using assms(1) by (auto simp: wf_world_def)
  show ?thesis
    using a by (simp add: deliver_def handle_def error_handler_def Let_def message_or_def)
qed

theorem upload_error_handler_witness:
  "wf_world (projr (uploadFile 0 (addFiles [\<lparr>name = ''a.xml'', size_bytes = 10\<rparr>] init))) \<and>
   0 < length (requests (projr (uploadFile 0 (addFiles [\<lparr>name = ''a.xml'', size_bytes = 10\<rparr>] init)))) \<and>
   status (heap (deliver 0 (Fail None)
     (projr (uploadFile 0 (addFiles [\<lparr>name = ''a.xml'', size_bytes = 10\<rparr>] init)))) ! 0) = Error \<and>
   error (heap (deliver 0 (Fail None)
     (projr (uploadFile 0 (addFiles [\<lparr>name = ''a.xml'', size_bytes = 10\<rparr>] init)))) ! 0)
       = Some ''Upload failed'' \<and>
   alertMessage (deliver 0 (Fail None)
     (projr (uploadFile 0 (addFiles [\<lparr>name = ''a.xml'', size_bytes = 10\<rparr>] init))))
       = ''Failed to upload a.xml: Upload failed''"
  using upload_error_handler [of "projr (uploadFile 0 (addFiles [\<lparr>name = ''a.xml'', size_bytes = 10\<rparr>] init))" 0 None]
  by (simp add: run_eval wf_world_def)

text \<open>
  Claim C6. At an index whose record is uploading, \<open>uploadFile\<close> changes nothing:
  the record, the queue, \<open>isUploading\<close>, the alert and the requests stay as they
  are. So of two calls in a row on a record that was not uploading, the first
  issues one request and the second none.
\<close>

theorem uploadFile_noop_when_uploading:
  assumes "wf_world s" and "0 \<le> i" and "i < int (length (uploadedFiles s))"
  shows "(status (heap s ! (uploadedFiles s ! nat i)) = Uploading \<longrightarrow> uploadFile i s = Inr s) \<and>
         (status (heap s ! (uploadedFiles s ! nat i)) \<noteq> Uploading \<longrightarrow>
            (\<exists>s1. uploadFile i s = Inr s1 \<and>
                  length (requests s1) = Suc (length (requests s)) \<and>
                  uploadFile i s1 = Inr s1))"
proof -
  have "uploadedFiles s ! nat i \<in> set (uploadedFiles s)" using assms(2,3) by simp
  then have a: "uploadedFiles s ! nat i < length (heap s)"
    using assms(1) by (auto simp: wf_world_def)
  show ?thesis
    using assms(2,3) a by (simp add: uploadFile_def Let_def)
qed

theorem uploadFile_noop_when_uploading_witness:
  "wf_world (addFiles [\<lparr>name = ''a.xml'', size_bytes = 10\<rparr>] init) \<and>
   (0::int) \<le> 0 \<and>
   0 < int (length (uploadedFiles (addFiles [\<lparr>name = ''a.xml'', size_bytes = 10\<rparr>] init))) \<and>
   length (requests (projr (uploadFile 0 (addFiles [\<lparr>name = ''a.xml'', size_bytes = 10\<rparr>] init)))) = 1 \<and>
   uploadFile 0 (projr (uploadFile 0 (addFiles [\<lparr>name = ''a.xml'', size_bytes = 10\<rparr>] init)))
     = uploadFile 0 (addFiles [\<lparr>name = ''a.xml'', size_bytes = 10\<rparr>] init)"
  using uploadFile_noop_when_uploading [of "addFiles [\<lparr>name = ''a.xml'', size_bytes = 10\<rparr>] init" 0]
  by (simp add: run_eval wf_world_def)




text \<open>
  Claim C2, as stated, fails: a progress event with all bytes sent sets the
  progress to 100 while the status is still uploading.
\<close>

theorem progress_100_while_uploading:
  "status (heap (deliver 0 (Next (UploadProgress 10 (Some 10)))
             (projr (uploadFile 0 (addFiles [\<lparr>name = ''a.xml'', size_bytes = 10\<rparr>] init)))) ! 0) = Uploading \<and>
   progress (heap (deliver 0 (Next (UploadProgress 10 (Some 10)))
             (projr (uploadFile 0 (addFiles [\<lparr>name = ''a.xml'', size_bytes = 10\<rparr>] init)))) ! 0) = 100"
  by (simp add: run_eval)

text \<open>
  Claim C2, amended. In every state the component can reach, a record with status
  success has progress 100; and the response event of a request sets the status
  of its record to success and its progress to 100 together, and \<open>isUploading\<close>
  to false. (The converse fails: progress 100 does not imply status success.)
\<close>

theorem success_implies_progress_100:
  assumes "run acts init = Inr s"
  shows "(\<forall>a < length (heap s). status (heap s ! a) = Success \<longrightarrow> progress (heap s ! a) = 100) \<and>
         (\<forall>k < length (requests s).
            status (heap (deliver k (Next Response) s) ! req_item (requests s ! k)) = Success \<and>
            progress (heap (deliver k (Next Response) s) ! req_item (requests s ! k)) = 100 \<and>
            isUploading (deliver k (Next Response) s) = False)"
proof -
  have wf: "wf_world s" using wf_init assms by (rule wf_run)
  have 1: "\<forall>a < length (heap s). status (heap s ! a) = Success \<longrightarrow> progress (heap s ! a) = 100"
    using wf by (simp add: wf_world_def)
  have 2: "status (heap (deliver k (Next Response) s) ! req_item (requests s ! k)) = Success \<and>
            progress (heap (deliver k (Next Response) s) ! req_item (requests s ! k)) = 100 \<and>
            isUploading (deliver k (Next Response) s) = False" if "k < length (requests s)" for k
  proof -
    have "requests s ! k \<in> set (requests s)" using that by simp
    then have "req_item (requests s ! k) < length (heap s)"
      using wf by (auto simp: wf_world_def)
    then show ?thesis by (simp add: deliver_def handle_def next_handler_def)
  qed
  show ?thesis using 1 2 by blast
qed

theorem success_implies_progress_100_witness:
  "run [AddFiles [\<lparr>name = ''a.xml'', size_bytes = 10\<rparr>], UploadFile 0,
        Deliver 0 (Next (UploadProgress 5 (Some 10))), Deliver 0 (Next Response)] init
     = Inr \<lparr>uploadedFiles = [0], isUploading = False,
            alertMessage = ''File a.xml uploaded successfully!'',
            alertType = ''alert-success'',
            heap = [\<lparr>file_obj = \<lparr>name = ''a.xml'', size_bytes = 10\<rparr>, progress = 100,
                     status = Success, error = None\<rparr>],
            requests = [], timers = [5000], now = 0\<rparr> \<and>
   status ([\<lparr>file_obj = \<lparr>name = ''a.xml'', size_bytes = 10\<rparr>, progress = 100,
             status = Success, error = None\<rparr>] ! 0) = Success \<and>
   progress ([\<lparr>file_obj = \<lparr>name = ''a.xml'', size_bytes = 10\<rparr>, progress = 100,
               status = Success, error = None\<rparr>] ! 0) = 100"
  using success_implies_progress_100 [of "[AddFiles [\<lparr>name = ''a.xml'', size_bytes = 10\<rparr>], UploadFile 0,
        Deliver 0 (Next (UploadProgress 5 (Some 10))), Deliver 0 (Next Response)]"
      "\<lparr>uploadedFiles = [0], isUploading = False,
            alertMessage = ''File a.xml uploaded successfully!'',
            alertType = ''alert-success'',
            heap = [\<lparr>file_obj = \<lparr>name = ''a.xml'', size_bytes = 10\<rparr>, progress = 100,
                     status = Success, error = None\<rparr>],
            requests = [], timers = [5000], now = 0\<rparr>"]
  by (simp add: run_eval)

section \<open>Removing a queue entry\<close>

lemma uploadFile_fields:
  assumes "uploadFile i s = Inr s'"
  shows "uploadedFiles s' = uploadedFiles s" "length (heap s') = length (heap s)"
    "timers s' = timers s" "now s' = now s"
  using assms by (auto simp: uploadFile_def Let_def split: if_splits)

lemma forEach_upload_fields:
  "forEach_upload ps s = Inr s' \<Longrightarrow>
     uploadedFiles s' = uploadedFiles s \<and> length (heap s') = length (heap s) \<and>
     timers s' = timers s \<and> now s' = now s"
proof (induction ps arbitrary: s)
  case Nil
  then show ?case by simp
next
  case (Cons p ps)
  then obtain s1 where 1: "uploadFile (findIndex (\<lambda>f. f = p) (uploadedFiles s)) s = Inr s1"
    and 2: "forEach_upload ps s1 = Inr s'"
    by (auto simp: Let_def split: sum.splits)
  show ?case using uploadFile_fields[OF 1] Cons.IH[OF 2] by simp
qed

lemma deliver_fields:
  "uploadedFiles (deliver k ev s) = uploadedFiles s"
  "length (heap (deliver k ev s)) = length (heap s)"
  "now (deliver k ev s) = now s"
  "set (timers s) \<subseteq> set (timers (deliver k ev s))"
  by (auto simp: deliver_def handle_def next_handler_def error_handler_def Let_def
      split: transport_event.splits http_event.splits)

lemma addFiles_fields:
  "uploadedFiles (addFiles fs s)
     = uploadedFiles s @ [length (heap s) ..< length (heap s) + length (filter isValidFile fs)]"
  "heap (addFiles fs s) = heap s @ map new_item (filter isValidFile fs)"
  "now (addFiles fs s) = now s"
  "set (timers s) \<subseteq> set (timers (addFiles fs s))"
  by (auto simp: addFiles_def Let_def fold_push_item)

lemma removeFile_fields [simp]:
  "heap (removeFile i s) = heap s" "requests (removeFile i s) = requests s"
  "timers (removeFile i s) = timers s" "now (removeFile i s) = now s"
  by (simp_all add: removeFile_def Let_def)

lemma stays_out_exec:
  assumes "a < length (heap s)" and "a \<notin> set (uploadedFiles s)" and "exec act s = Inr s'"
  shows "a < length (heap s') \<and> a \<notin> set (uploadedFiles s')"
proof (cases act)
  case (AddFiles fs)
  then show ?thesis using assms by (auto simp: addFiles_fields)
next
  case (UploadFile i)
  then show ?thesis using assms uploadFile_fields[of i s s'] by simp
next
  case UploadAllFiles
  then show ?thesis using assms forEach_upload_fields[of "pendingFiles s" s s']
    by (simp add: uploadAllFiles_def)
next
  case (RemoveFile i)
  then show ?thesis using assms removeFile_sub[of i s] by auto
next
  case (Deliver k ev)
  then show ?thesis using assms by (auto simp: deliver_fields split: if_splits)
next
  case (Advance d)
  then show ?thesis using assms by auto
qed

lemma stays_out_run:
  "a < length (heap s) \<Longrightarrow> a \<notin> set (uploadedFiles s) \<Longrightarrow> run acts s = Inr s'
     \<Longrightarrow> a < length (heap s') \<and> a \<notin> set (uploadedFiles s')"
proof (induction acts arbitrary: s)
  case Nil
  then show ?case by simp
next
  case (Cons act acts)
  from Cons.prems(3) obtain s1 where 1: "exec act s = Inr s1" and 2: "run acts s1 = Inr s'"
    by (auto split: sum.splits)
  from stays_out_exec[OF Cons.prems(1,2) 1] Cons.IH[OF _ _ 2] show ?case by blast
qed

lemma handle_frame:
  assumes "a \<notin> set (uploadedFiles s)"
  shows "uploadedFiles (handle a ev s) = uploadedFiles s \<and>
         queue_records (handle a ev s) = queue_records s"
proof -
  have "(heap s)[a := x] ! b = heap s ! b" if "b \<in> set (uploadedFiles s)" for b x
  proof -
    from that assms have "a \<noteq> b" by auto
    then show ?thesis by simp
  qed
  then have "map (\<lambda>b. (heap s)[a := x] ! b) (uploadedFiles s)
               = map (\<lambda>b. heap s ! b) (uploadedFiles s)" for x
    by simp
  then show ?thesis
    by (auto simp: handle_def next_handler_def error_handler_def Let_def queue_records_def
        split: transport_event.splits http_event.splits)
qed

text \<open>
  Claim C7. \<open>removeFile\<close> at an index of the queue removes the record there,
  whatever its status, and cancels no request. Whatever happens afterwards, a
  callback of a request of the removed record (progress, response or error;
  each is a total function on states, so it does not throw) leaves the queue
  and every record of the queue as they are.
\<close>

theorem removeFile_then_callback:
  assumes "wf_world s" and "0 \<le> i" and "i < int (length (uploadedFiles s))"
    and "run acts (removeFile i s) = Inr s'"
  shows "uploadedFiles (removeFile i s)
           = take (nat i) (uploadedFiles s) @ drop (Suc (nat i)) (uploadedFiles s) \<and>
         heap (removeFile i s) = heap s \<and>
         requests (removeFile i s) = requests s \<and>
         uploadedFiles (handle (uploadedFiles s ! nat i) ev s') = uploadedFiles s' \<and>
         queue_records (handle (uploadedFiles s ! nat i) ev s') = queue_records s'"
proof -
  let ?a = "uploadedFiles s ! nat i"
  have n: "nat i < length (uploadedFiles s)" using assms(2,3) by simp
  have eq: "uploadedFiles (removeFile i s)
           = take (nat i) (uploadedFiles s) @ drop (Suc (nat i)) (uploadedFiles s)"
    using assms(2,3) by (simp add: removeFile_def Let_def min_def)
  have d: "distinct (map id (uploadedFiles s))" using assms(1) by (simp add: wf_world_def)
  have out: "?a \<notin> set (uploadedFiles (removeFile i s))"
    unfolding eq using distinct_map_others[OF d n] by auto
  have "?a \<in> set (uploadedFiles s)" using n by simp
  then have "?a < length (heap (removeFile i s))" using assms(1) by (simp add: wf_world_def)
  from stays_out_run[OF this out assms(4)] have "?a \<notin> set (uploadedFiles s')" by simp
  from handle_frame[OF this, of ev] eq show ?thesis by simp
qed

theorem removeFile_then_callback_witness:
  "wf_world (projr (uploadFile 0 (addFiles [\<lparr>name = ''a.xml'', size_bytes = 10\<rparr>,
       \<lparr>name = ''b.dat'', size_bytes = 20\<rparr>] init))) \<and>
   (0::int) \<le> 0 \<and>
   0 < int (length (uploadedFiles (projr (uploadFile 0 (addFiles [\<lparr>name = ''a.xml'', size_bytes = 10\<rparr>,
       \<lparr>name = ''b.dat'', size_bytes = 20\<rparr>] init))))) \<and>
   run [Advance 10] (removeFile 0 (projr (uploadFile 0 (addFiles [\<lparr>name = ''a.xml'', size_bytes = 10\<rparr>,
       \<lparr>name = ''b.dat'', size_bytes = 20\<rparr>] init)))) = Inr (projr (run [Advance 10] (removeFile 0
     (projr (uploadFile 0 (addFiles [\<lparr>name = ''a.xml'', size_bytes = 10\<rparr>,
       \<lparr>name = ''b.dat'', size_bytes = 20\<rparr>] init)))))) \<and>
   status (heap (projr (uploadFile 0 (addFiles [\<lparr>name = ''a.xml'', size_bytes = 10\<rparr>,
       \<lparr>name = ''b.dat'', size_bytes = 20\<rparr>] init))) ! 0) = Uploading \<and>
   uploadedFiles (removeFile 0 (projr (uploadFile 0 (addFiles [\<lparr>name = ''a.xml'', size_bytes = 10\<rparr>,
       \<lparr>name = ''b.dat'', size_bytes = 20\<rparr>] init)))) = [1] \<and>
   queue_records (handle 0 (Next Response) (projr (run [Advance 10] (removeFile 0
     (projr (uploadFile 0 (addFiles [\<lparr>name = ''a.xml'', size_bytes = 10\<rparr>,
       \<lparr>name = ''b.dat'', size_bytes = 20\<rparr>] init)))))))
     = [\<lparr>file_obj = \<lparr>name = ''b.dat'', size_bytes = 20\<rparr>, progress = 0,
         status = Pending, error = None\<rparr>] \<and>
   queue_records (handle 0 (Fail None) (projr (run [Advance 10] (removeFile 0
     (projr (uploadFile 0 (addFiles [\<lparr>name = ''a.xml'', size_bytes = 10\<rparr>,
       \<lparr>name = ''b.dat'', size_bytes = 20\<rparr>] init))))))) = queue_records (projr (run [Advance 10] (removeFile 0
     (projr (uploadFile 0 (addFiles [\<lparr>name = ''a.xml'', size_bytes = 10\<rparr>,
       \<lparr>name = ''b.dat'', size_bytes = 20\<rparr>] init))))))"
  using removeFile_then_callback [of "(projr (uploadFile 0 (addFiles [\<lparr>name = ''a.xml'', size_bytes = 10\<rparr>,
       \<lparr>name = ''b.dat'', size_bytes = 20\<rparr>] init)))" 0 "[Advance 10]" "(projr (run [Advance 10] (removeFile 0
     (projr (uploadFile 0 (addFiles [\<lparr>name = ''a.xml'', size_bytes = 10\<rparr>,
       \<lparr>name = ''b.dat'', size_bytes = 20\<rparr>] init))))))" "Next Response"]
    removeFile_then_callback [of "(projr (uploadFile 0 (addFiles [\<lparr>name = ''a.xml'', size_bytes = 10\<rparr>,
       \<lparr>name = ''b.dat'', size_bytes = 20\<rparr>] init)))" 0 "[Advance 10]" "(projr (run [Advance 10] (removeFile 0
     (projr (uploadFile 0 (addFiles [\<lparr>name = ''a.xml'', size_bytes = 10\<rparr>,
       \<lparr>name = ''b.dat'', size_bytes = 20\<rparr>] init))))))" "Fail None"]
  by (simp add: run_eval removeFile_def advance_def clearAlert_def queue_records_def wf_world_def)

section \<open>Uploading all pending files\<close>

lemma findIndex_eq:
  "p \<in> set xs \<Longrightarrow>
     0 \<le> findIndex (\<lambda>f. f = p) xs \<and> nat (findIndex (\<lambda>f. f = p) xs) < length xs \<and>
     xs ! nat (findIndex (\<lambda>f. f = p) xs) = p"
proof (induction xs)
  case Nil
  then show ?case by simp
next
  case (Cons x xs)
  show ?case
  proof (cases "x = p")
    case True
    then show ?thesis by simp
  next
    case False
    with Cons.prems have "p \<in> set xs" by simp
    from Cons.IH[OF this] False show ?thesis
      by (simp add: Let_def nat_add_distrib)
  qed
qed

lemma uploadFile_at:
  assumes "p \<in> set (uploadedFiles s)" and "status (heap s ! p) \<noteq> Uploading"
  shows "uploadFile (findIndex (\<lambda>f. f = p) (uploadedFiles s)) s
     = Inr (s\<lparr>heap := (heap s)[p := (heap s ! p)\<lparr>status := Uploading\<rparr>],
              isUploading := True,
              requests := requests s @
                [\<lparr>req_item = p, req_file = file_obj (heap s ! p), req_type = ''neural-data''\<rparr>]\<rparr>)"
proof -
  let ?i = "findIndex (\<lambda>f. f = p) (uploadedFiles s)"
  from findIndex_eq[OF assms(1)]
  have i: "0 \<le> ?i" "nat ?i < length (uploadedFiles s)" "uploadedFiles s ! nat ?i = p"
    by simp_all
  then have "\<not> (?i < 0 \<or> int (length (uploadedFiles s)) \<le> ?i)" by linarith
  then show ?thesis
    using i(3) assms(2) by (simp add: uploadFile_def Let_def)
qed

lemma forEach_upload_char:
  assumes "distinct ps" and "set ps \<subseteq> set (uploadedFiles s)"
    and "\<forall>p \<in> set ps. p < length (heap s) \<and> status (heap s ! p) \<noteq> Uploading"
  shows "\<exists>s'. forEach_upload ps s = Inr s' \<and>
           uploadedFiles s' = uploadedFiles s \<and>
           requests s' = requests s @
             map (\<lambda>a. \<lparr>req_item = a, req_file = file_obj (heap s ! a), req_type = ''neural-data''\<rparr>) ps \<and>
           length (heap s') = length (heap s) \<and>
           (\<forall>a < length (heap s).
              heap s' ! a = (if a \<in> set ps then (heap s ! a)\<lparr>status := Uploading\<rparr> else heap s ! a))"
  using assms
proof (induction ps arbitrary: s)
  case Nil
  then show ?case by simp
next
  case (Cons p ps)
  let ?s1 = "s\<lparr>heap := (heap s)[p := (heap s ! p)\<lparr>status := Uploading\<rparr>],
              isUploading := True,
              requests := requests s @
                [\<lparr>req_item = p, req_file = file_obj (heap s ! p), req_type = ''neural-data''\<rparr>]\<rparr>"
  have p: "p \<in> set (uploadedFiles s)" "p < length (heap s)" "status (heap s ! p) \<noteq> Uploading"
    "p \<notin> set ps"
    using Cons.prems by auto
  have 1: "uploadFile (findIndex (\<lambda>f. f = p) (uploadedFiles s)) s = Inr ?s1"
    using p(1,3) by (rule uploadFile_at)
  have same: "heap ?s1 ! a = heap s ! a" if "a \<in> set ps" for a
  proof -
    from that p(4) have "p \<noteq> a" by blast
    then show ?thesis by simp
  qed
  have "distinct ps" "set ps \<subseteq> set (uploadedFiles ?s1)"
    "\<forall>q \<in> set ps. q < length (heap ?s1) \<and> status (heap ?s1 ! q) \<noteq> Uploading"
    using Cons.prems same by auto
  from Cons.IH[OF this] obtain s' where s':
    "forEach_upload ps ?s1 = Inr s'"
    "uploadedFiles s' = uploadedFiles ?s1"
    "requests s' = requests ?s1 @
             map (\<lambda>a. \<lparr>req_item = a, req_file = file_obj (heap ?s1 ! a), req_type = ''neural-data''\<rparr>) ps"
    "length (heap s') = length (heap ?s1)"
    "\<forall>a < length (heap ?s1).
        heap s' ! a = (if a \<in> set ps then (heap ?s1 ! a)\<lparr>status := Uploading\<rparr> else heap ?s1 ! a)"
    by blast
  have r: "map (\<lambda>a. \<lparr>req_item = a, req_file = file_obj (heap ?s1 ! a), req_type = ''neural-data''\<rparr>) ps
         = map (\<lambda>a. \<lparr>req_item = a, req_file = file_obj (heap s ! a), req_type = ''neural-data''\<rparr>) ps"
    using same by simp
  have h: "heap s' ! a = (if a \<in> set (p # ps) then (heap s ! a)\<lparr>status := Uploading\<rparr> else heap s ! a)"
    if "a < length (heap s)" for a
    using s'(5) that p(2,4) by (auto simp: nth_list_update)
  show ?case
  proof (rule exI[of _ s'], intro conjI allI impI)
    show "forEach_upload (p # ps) s = Inr s'"
      using 1 s'(1) by (simp add: Let_def)
    show "uploadedFiles s' = uploadedFiles s" using s'(2) by simp
    show "requests s' = requests s @
             map (\<lambda>a. \<lparr>req_item = a, req_file = file_obj (heap s ! a), req_type = ''neural-data''\<rparr>) (p # ps)"
      unfolding s'(3) r by simp
    show "length (heap s') = length (heap s)" using s'(4) by simp
    show "heap s' ! a = (if a \<in> set (p # ps) then (heap s ! a)\<lparr>status := Uploading\<rparr> else heap s ! a)"
      if "a < length (heap s)" for a
      using that by (rule h)
  qed
qed

text \<open>
  Claim C9. \<open>uploadAllFiles\<close> takes the pending records of the queue once, at its
  start, and calls \<open>uploadFile\<close> for each of them, at the index where the record
  is in the queue: it returns, the queue is as before, exactly one request is
  issued for each record of the snapshot, in queue order, those records become
  uploading, and every other record is as before.
\<close>

theorem uploadAllFiles_uploads_pending:
  assumes "wf_world s"
  shows "\<exists>s'. uploadAllFiles s = Inr s' \<and>
           uploadedFiles s' = uploadedFiles s \<and>
           distinct (pendingFiles s) \<and>
           requests s' = requests s @
             map (\<lambda>a. \<lparr>req_item = a, req_file = file_obj (heap s ! a), req_type = ''neural-data''\<rparr>)
               (pendingFiles s) \<and>
           length (heap s') = length (heap s) \<and>
           (\<forall>a < length (heap s).
              heap s' ! a = (if a \<in> set (uploadedFiles s) \<and> status (heap s ! a) = Pending
                             then (heap s ! a)\<lparr>status := Uploading\<rparr> else heap s ! a)) \<and>
           (\<forall>p \<in> set (pendingFiles s).
              0 \<le> findIndex (\<lambda>f. f = p) (uploadedFiles s) \<and>
              uploadedFiles s ! nat (findIndex (\<lambda>f. f = p) (uploadedFiles s)) = p)"
proof -
  have d: "distinct (pendingFiles s)"
    using assms by (simp add: pendingFiles_def wf_world_def)
  have sub: "set (pendingFiles s) \<subseteq> set (uploadedFiles s)"
    by (auto simp: pendingFiles_def)
  have v: "\<forall>a \<in> set (uploadedFiles s). a < length (heap s)"
    using assms by (simp add: wf_world_def)
  have ok: "\<forall>p \<in> set (pendingFiles s). p < length (heap s) \<and> status (heap s ! p) \<noteq> Uploading"
    using v by (simp add: pendingFiles_def)
  have mem: "a \<in> set (pendingFiles s) \<longleftrightarrow> a \<in> set (uploadedFiles s) \<and> status (heap s ! a) = Pending" for a
    by (auto simp: pendingFiles_def)
  from forEach_upload_char[OF d sub ok] obtain s' where s':
    "forEach_upload (pendingFiles s) s = Inr s'"
    "uploadedFiles s' = uploadedFiles s"
    "requests s' = requests s @
       map (\<lambda>a. \<lparr>req_item = a, req_file = file_obj (heap s ! a), req_type = ''neural-data''\<rparr>)
         (pendingFiles s)"
    "length (heap s') = length (heap s)"
    "\<forall>a < length (heap s).
        heap s' ! a = (if a \<in> set (pendingFiles s) then (heap s ! a)\<lparr>status := Uploading\<rparr> else heap s ! a)"
    by blast
  have idx: "\<forall>p \<in> set (pendingFiles s).
              0 \<le> findIndex (\<lambda>f. f = p) (uploadedFiles s) \<and>
              uploadedFiles s ! nat (findIndex (\<lambda>f. f = p) (uploadedFiles s)) = p"
  proof
    fix p assume "p \<in> set (pendingFiles s)"
    with sub have "p \<in> set (uploadedFiles s)" by (rule subsetD)
    from findIndex_eq[OF this]
    show "0 \<le> findIndex (\<lambda>f. f = p) (uploadedFiles s) \<and>
              uploadedFiles s ! nat (findIndex (\<lambda>f. f = p) (uploadedFiles s)) = p"
      by simp
  qed
  have run: "uploadAllFiles s = Inr s'" using s'(1) by (simp add: uploadAllFiles_def)
  have hp: "\<forall>a < length (heap s).
              heap s' ! a = (if a \<in> set (uploadedFiles s) \<and> status (heap s ! a) = Pending
                             then (heap s ! a)\<lparr>status := Uploading\<rparr> else heap s ! a)"
    using s'(5) unfolding mem .
  show ?thesis
    by (rule exI[of _ s'], intro conjI) (fact run s'(2) d s'(3) s'(4) hp idx)+
qed

theorem uploadAllFiles_uploads_pending_witness:
  "wf_world (projr (uploadFile 1 (addFiles [\<lparr>name = ''a.xml'', size_bytes = 10\<rparr>,
       \<lparr>name = ''b.dat'', size_bytes = 20\<rparr>, \<lparr>name = ''c.nrs'', size_bytes = 30\<rparr>] init))) \<and>
   pendingFiles (projr (uploadFile 1 (addFiles [\<lparr>name = ''a.xml'', size_bytes = 10\<rparr>,
       \<lparr>name = ''b.dat'', size_bytes = 20\<rparr>, \<lparr>name = ''c.nrs'', size_bytes = 30\<rparr>] init))) = [0, 2] \<and>
   map req_item (requests (projr (uploadAllFiles (projr (uploadFile 1 (addFiles [\<lparr>name = ''a.xml'', size_bytes = 10\<rparr>,
       \<lparr>name = ''b.dat'', size_bytes = 20\<rparr>, \<lparr>name = ''c.nrs'', size_bytes = 30\<rparr>] init)))))) = [1, 0, 2] \<and>
   map status (queue_records (projr (uploadAllFiles (projr (uploadFile 1 (addFiles [\<lparr>name = ''a.xml'', size_bytes = 10\<rparr>,
       \<lparr>name = ''b.dat'', size_bytes = 20\<rparr>, \<lparr>name = ''c.nrs'', size_bytes = 30\<rparr>] init)))))) = [Uploading, Uploading, Uploading]"
  using uploadAllFiles_uploads_pending [of "(projr (uploadFile 1 (addFiles [\<lparr>name = ''a.xml'', size_bytes = 10\<rparr>,
       \<lparr>name = ''b.dat'', size_bytes = 20\<rparr>, \<lparr>name = ''c.nrs'', size_bytes = 30\<rparr>] init)))"]
  by (simp add: run_eval uploadAllFiles_def pendingFiles_def queue_records_def wf_world_def)

section \<open>Alerts and their timers\<close>

lemma fold_clearAlert_alert:
  "xs \<noteq> [] \<Longrightarrow>
     alertMessage (fold (\<lambda>_. clearAlert) xs s) = [] \<and> alertType (fold (\<lambda>_. clearAlert) xs s) = []"
proof (induction xs rule: rev_induct)
  case Nil
  then show ?case by simp
next
  case (snoc x xs)
  show ?case by (simp add: clearAlert_def)
qed

lemma advance_time [simp]:
  "now (advance d s) = now s + d"
  "timers (advance d s) = filter (\<lambda>x. \<not> x \<le> now s + d) (timers s)"
  by (simp_all add: advance_def Let_def)

lemma advance_clears:
  assumes "t \<in> set (timers s)" and "t \<le> now s + d"
  shows "alertMessage (advance d s) = [] \<and> alertType (advance d s) = []"
proof -
  have "filter (\<lambda>x. x \<le> now s + d) (timers s) \<noteq> []"
    using assms by (auto simp: filter_empty_conv)
  then show ?thesis
    by (simp add: advance_def Let_def fold_clearAlert_alert)
qed

lemma exec_time:
  assumes "exec act s = Inr s'"
  shows "now s \<le> now s' \<and> (\<forall>t \<in> set (timers s). now s' < t \<longrightarrow> t \<in> set (timers s'))"
proof (cases act)
  case (AddFiles fs)
  then show ?thesis using assms addFiles_fields(3)[of fs s] addFiles_fields(4)[of s fs] by auto
next
  case (UploadFile i)
  then show ?thesis using assms uploadFile_fields[of i s s'] by simp
next
  case UploadAllFiles
  then show ?thesis using assms forEach_upload_fields[of "pendingFiles s" s s']
    by (simp add: uploadAllFiles_def)
next
  case (RemoveFile i)
  then show ?thesis using assms by auto
next
  case (Deliver k ev)
  then show ?thesis using assms deliver_fields(3)[of k ev s] deliver_fields(4)[of s k ev] by (auto split: if_splits)
next
  case (Advance d)
  then show ?thesis using assms by auto
qed

lemma run_time:
  "run acts s = Inr s' \<Longrightarrow>
     now s \<le> now s' \<and> (\<forall>t \<in> set (timers s). now s' < t \<longrightarrow> t \<in> set (timers s'))"
proof (induction acts arbitrary: s)
  case Nil
  then show ?case by simp
next
  case (Cons act acts)
  from Cons.prems obtain s1 where 1: "exec act s = Inr s1" and 2: "run acts s1 = Inr s'"
    by (auto split: sum.splits)
  have e: "now s \<le> now s1" "\<forall>t \<in> set (timers s). now s1 < t \<longrightarrow> t \<in> set (timers s1)"
    using exec_time[OF 1] by simp_all
  have r: "now s1 \<le> now s'" "\<forall>t \<in> set (timers s1). now s' < t \<longrightarrow> t \<in> set (timers s')"
    using Cons.IH[OF 2] by simp_all
  have "t \<in> set (timers s')" if "t \<in> set (timers s)" "now s' < t" for t
  proof -
    from that(2) r(1) have "now s1 < t" by simp
    with e(2) that(1) have "t \<in> set (timers s1)" by simp
    with r(2) that(2) show ?thesis by simp
  qed
  with e(1) r(1) show ?case by auto
qed

text \<open>
  Claim C5, as stated, fails: \<open>showAlert\<close> does not cancel the timer of the alert
  it replaces. A second alert set 3000 ms after a first one is cleared by the
  first alert's timer, 2000 ms after it was set.
\<close>

theorem superseding_alert_cleared_early:
  "alertMessage (showAlert ''second'' KInfo (advance 3000 (showAlert ''first'' KInfo init)))
     = ''second'' \<and>
   now (advance 2000 (showAlert ''second'' KInfo (advance 3000 (showAlert ''first'' KInfo init))))
     = 5000 \<and>
   alertMessage (advance 2000
      (showAlert ''second'' KInfo (advance 3000 (showAlert ''first'' KInfo init)))) = [] \<and>
   alertType (advance 2000
      (showAlert ''second'' KInfo (advance 3000 (showAlert ''first'' KInfo init)))) = []"
  by (simp add: showAlert_def advance_def clearAlert_def init_def Let_def)

text \<open>
  Claim C5, amended. \<open>showAlert\<close> displays the alert and schedules a clearing
  5000 ms later, which nothing cancels. Whatever happens in between, new alerts
  included, the alert is empty when the clock reaches 5000 ms after the call:
  an alert set at time T is cleared by T + 5000, and an alert that replaced it
  in the meantime is cleared at T + 5000 as well, before its own 5000 ms are over.
\<close>

theorem alert_cleared_by_5000:
  assumes "run acts (showAlert m k s) = Inr s'"
    and "now s' < now s + 5000" and "now s + 5000 \<le> now s' + d"
  shows "alertMessage (showAlert m k s) = m \<and>
         alertType (showAlert m k s) = ''alert-'' @ kind_string k \<and>
         alertMessage (advance d s') = [] \<and>
         alertType (advance d s') = []"
proof -
  have "now s + 5000 \<in> set (timers (showAlert m k s))" by simp
  with run_time[OF assms(1)] assms(2) have "now s + 5000 \<in> set (timers s')"
    by simp
  from advance_clears[OF this assms(3)] show ?thesis by simp
qed

theorem alert_cleared_by_5000_witness:
  "run [Advance 3000, AddFiles [\<lparr>name = ''b.exe'', size_bytes = 10\<rparr>]]
       (showAlert ''first'' KInfo init)
     = Inr (projr (run [Advance 3000, AddFiles [\<lparr>name = ''b.exe'', size_bytes = 10\<rparr>]]
                     (showAlert ''first'' KInfo init))) \<and>
   now (projr (run [Advance 3000, AddFiles [\<lparr>name = ''b.exe'', size_bytes = 10\<rparr>]]
                     (showAlert ''first'' KInfo init))) < now init + 5000 \<and>
   now init + 5000 \<le> now (projr (run [Advance 3000, AddFiles [\<lparr>name = ''b.exe'', size_bytes = 10\<rparr>]]
                     (showAlert ''first'' KInfo init))) + 2000 \<and>
   alertType (projr (run [Advance 3000, AddFiles [\<lparr>name = ''b.exe'', size_bytes = 10\<rparr>]]
                     (showAlert ''first'' KInfo init))) = ''alert-error'' \<and>
   alertType (advance 2000
      (projr (run [Advance 3000, AddFiles [\<lparr>name = ''b.exe'', size_bytes = 10\<rparr>]]
                     (showAlert ''first'' KInfo init)))) = []"
  using alert_cleared_by_5000 [of "[Advance 3000, AddFiles [\<lparr>name = ''b.exe'', size_bytes = 10\<rparr>]]"
      "''first''" KInfo init
      "projr (run [Advance 3000, AddFiles [\<lparr>name = ''b.exe'', size_bytes = 10\<rparr>]]
                     (showAlert ''first'' KInfo init))" 2000]
  by (simp add: run_eval advance_def clearAlert_def)

section \<open>Exceptions\<close>

text \<open>
  \<open>run\<close> stops at an exception, while the component lives on after one. Nothing
  is lost by that: from a state that satisfies the invariant only \<open>uploadFile\<close>
  at an index outside the queue throws, and it throws before it changes anything.
\<close>

lemma exec_throws_only_uploadFile:
  assumes "wf_world s" and "exec act s = Inl e"
  shows "\<exists>i. act = UploadFile i \<and> (i < 0 \<or> int (length (uploadedFiles s)) \<le> i)"
proof (cases act)
  case (UploadFile i)
  then show ?thesis using assms(2) by (auto simp: uploadFile_def Let_def split: if_splits)
next
  case UploadAllFiles
  have d: "distinct (pendingFiles s)"
    using assms(1) by (simp add: pendingFiles_def wf_world_def)
  have sub: "set (pendingFiles s) \<subseteq> set (uploadedFiles s)"
    by (auto simp: pendingFiles_def)
  have v: "\<forall>a \<in> set (uploadedFiles s). a < length (heap s)"
    using assms(1) by (simp add: wf_world_def)
  have ok: "\<forall>p \<in> set (pendingFiles s). p < length (heap s) \<and> status (heap s ! p) \<noteq> Uploading"
    using v by (simp add: pendingFiles_def)
  from forEach_upload_char[OF d sub ok] obtain s' where "forEach_upload (pendingFiles s) s = Inr s'"
    by blast
  then show ?thesis using assms(2) UploadAllFiles by (simp add: uploadAllFiles_def)
next
  case (AddFiles fs)
  then show ?thesis using assms(2) by simp
next
  case (RemoveFile i)
  then show ?thesis using assms(2) by simp
next
  case (Deliver k ev)
  then show ?thesis using assms(2) by (simp split: if_splits)
next
  case (Advance d)
  then show ?thesis using assms(2) by simp
qed

end
